theory Spec2Isabelle
  imports Complex_Main "HOL-Library.Multiset"
begin

section \<open>Python numbers\<close>

text \<open>
  The notebook computes with Python \<open>int\<close> (unbounded) and \<open>float\<close> (IEEE 754 binary64).
  A finite float is modelled by the rational number it denotes; addition,
  multiplication, division and conversion compute the exact rational result and round
  it to the nearest binary64 value, ties to even. The power \<open>**\<close> is the C library's and
  rounds as the library does. The sign of zero is not tracked: Python's \<open>==\<close> does not
  distinguish \<open>0.0\<close> from \<open>-0.0\<close>.
\<close>

subsection \<open>Rounding to binary64\<close>

text \<open>Python's \<open>int.bit_length\<close>, on the positive integers.\<close>

function bit_length :: "int \<Rightarrow> nat" where
  "bit_length n = (if n \<le> 0 then 0 else Suc (bit_length (n div 2)))"
  by pat_completeness auto
termination
  by (relation "measure nat") auto

definition pow2 :: "int \<Rightarrow> rat" where
  "pow2 e = (if 0 \<le> e then 2 ^ nat e else 1 / 2 ^ nat (- e))"

text \<open>For \<open>q > 0\<close>, \<open>ilog2 q\<close> is the binary exponent of \<open>q\<close>: \<open>2^e \<le> q < 2^(e+1)\<close>.\<close>

definition ilog2 :: "rat \<Rightarrow> int" where
  "ilog2 q = (if 1 \<le> q then int (bit_length \<lfloor>q\<rfloor>) - 1
              else - int (bit_length (\<lceil>1 / q\<rceil> - 1)))"

definition round_half_even :: "rat \<Rightarrow> int" where
  "round_half_even s =
     (let f = \<lfloor>s\<rfloor>; r = s - of_int f
      in if r < 1 / 2 then f
         else if 1 / 2 < r then f + 1
         else if even f then f else f + 1)"

text \<open>
  The exponent of the unit in the last place of the binary64 numbers around \<open>q\<close>:
  53 significant bits for normal numbers, and the fixed spacing \<open>2^-1074\<close> of the
  subnormal range.
\<close>

definition ulp_exp :: "rat \<Rightarrow> int" where
  "ulp_exp q = max (- 1074) (ilog2 \<bar>q\<bar> - 52)"

text \<open>Round to nearest, ties to even, with 53 bits and no upper bound on the exponent.\<close>

definition rnd :: "rat \<Rightarrow> rat" where
  "rnd q = (if q = 0 then 0
            else of_int (round_half_even (q / pow2 (ulp_exp q))) * pow2 (ulp_exp q))"

text \<open>
  Rounding to one of the two binary64 numbers that enclose \<open>q\<close>: the upper one or the
  lower one. Both are \<open>q\<close> itself when \<open>q\<close> is a binary64 number.
\<close>

definition rnd_toward :: "bool \<Rightarrow> rat \<Rightarrow> rat" where
  "rnd_toward upper q =
     (if q = 0 then 0
      else rat_of_int (if upper then \<lceil>q / pow2 (ulp_exp q)\<rceil> else \<lfloor>q / pow2 (ulp_exp q)\<rfloor>)
           * pow2 (ulp_exp q))"

subsection \<open>Floats\<close>

datatype pyfloat = Fin rat | PosInf | NegInf | NaN

text \<open>
  The largest binary exponent of a finite binary64 number is 1023: a rounded result
  of magnitude \<open>2^1024\<close> or more overflows to an infinity.
\<close>

definition to_float :: "rat \<Rightarrow> pyfloat" where
  "to_float q =
     (let r = rnd q
      in if r = 0 then Fin 0
         else if 1023 < ilog2 \<bar>r\<bar> then (if 0 < r then PosInf else NegInf)
         else Fin r)"

fun fadd :: "pyfloat \<Rightarrow> pyfloat \<Rightarrow> pyfloat" where
  "fadd (Fin a) (Fin b) = to_float (a + b)"
| "fadd NaN _ = NaN"
| "fadd _ NaN = NaN"
| "fadd PosInf NegInf = NaN"
| "fadd NegInf PosInf = NaN"
| "fadd PosInf _ = PosInf"
| "fadd NegInf _ = NegInf"
| "fadd _ PosInf = PosInf"
| "fadd _ NegInf = NegInf"

definition inf_of_sign :: "bool \<Rightarrow> pyfloat" where
  "inf_of_sign positive = (if positive then PosInf else NegInf)"

fun fmul :: "pyfloat \<Rightarrow> pyfloat \<Rightarrow> pyfloat" where
  "fmul (Fin a) (Fin b) = to_float (a * b)"
| "fmul NaN _ = NaN"
| "fmul _ NaN = NaN"
| "fmul (Fin a) PosInf = (if a = 0 then NaN else inf_of_sign (0 < a))"
| "fmul (Fin a) NegInf = (if a = 0 then NaN else inf_of_sign (a < 0))"
| "fmul PosInf (Fin b) = (if b = 0 then NaN else inf_of_sign (0 < b))"
| "fmul NegInf (Fin b) = (if b = 0 then NaN else inf_of_sign (b < 0))"
| "fmul PosInf PosInf = PosInf"
| "fmul PosInf NegInf = NegInf"
| "fmul NegInf PosInf = NegInf"
| "fmul NegInf NegInf = PosInf"

fun fle :: "pyfloat \<Rightarrow> pyfloat \<Rightarrow> bool" where
  "fle (Fin a) (Fin b) = (a \<le> b)"
| "fle NaN _ = False"
| "fle _ NaN = False"
| "fle NegInf _ = True"
| "fle _ PosInf = True"
| "fle PosInf _ = False"
| "fle _ NegInf = False"

subsection \<open>Exceptions\<close>

datatype py_error = ZeroDivisionError | OverflowError

definition bind_err :: "py_error + 'a \<Rightarrow> ('a \<Rightarrow> py_error + 'b) \<Rightarrow> py_error + 'b" where
  "bind_err m f = (case m of Inl e \<Rightarrow> Inl e | Inr x \<Rightarrow> f x)"

text \<open>Float division raises on a zero divisor before anything else is looked at.\<close>

fun fdiv :: "pyfloat \<Rightarrow> pyfloat \<Rightarrow> py_error + pyfloat" where
  "fdiv x (Fin b) =
     (if b = 0 then Inl ZeroDivisionError
      else case x of
             Fin a \<Rightarrow> Inr (to_float (a / b))
           | PosInf \<Rightarrow> Inr (inf_of_sign (0 < b))
           | NegInf \<Rightarrow> Inr (inf_of_sign (b < 0))
           | NaN \<Rightarrow> Inr NaN)"
| "fdiv NaN _ = Inr NaN"
| "fdiv _ NaN = Inr NaN"
| "fdiv (Fin a) _ = Inr (Fin 0)"
| "fdiv _ _ = Inr NaN"

text \<open>
  \<open>x ** 2\<close> on a float is the C library's \<open>pow(x, 2.0)\<close>. That function is not part of
  the notebook and is not correctly rounded: it returns one of the two floats that
  enclose the exact power, and which one depends on the library. The library is
  therefore a parameter: \<open>pow_upper x\<close> tells whether \<open>pow(x, 2.0)\<close> is the upper of the
  two. The interpreter raises \<open>OverflowError\<close> when the power of a finite float is
  not finite.
\<close>

type_synonym libm = "rat \<Rightarrow> bool"

fun float_pow2 :: "libm \<Rightarrow> pyfloat \<Rightarrow> py_error + pyfloat" where
  "float_pow2 pow_upper (Fin a) =
     (let r = rnd_toward (pow_upper a) (a * a)
      in if r = 0 then Inr (Fin 0)
         else if 1023 < ilog2 \<bar>r\<bar> then Inl OverflowError
         else Inr (Fin r))"
| "float_pow2 pow_upper NaN = Inr NaN"
| "float_pow2 pow_upper _ = Inr PosInf"

subsection \<open>Mixed int and float arithmetic\<close>

datatype pynum = PyInt int | PyFloat pyfloat

text \<open>Converting an int to a float rounds; an int too large for a float raises.\<close>

definition int_to_float :: "int \<Rightarrow> py_error + pyfloat" where
  "int_to_float i =
     (case to_float (of_int i) of Fin r \<Rightarrow> Inr (Fin r) | _ \<Rightarrow> Inl OverflowError)"

fun py_add :: "pynum \<Rightarrow> pynum \<Rightarrow> py_error + pynum" where
  "py_add (PyInt a) (PyInt b) = Inr (PyInt (a + b))"
| "py_add (PyInt a) (PyFloat y) = bind_err (int_to_float a) (\<lambda>x. Inr (PyFloat (fadd x y)))"
| "py_add (PyFloat x) (PyInt b) = bind_err (int_to_float b) (\<lambda>y. Inr (PyFloat (fadd x y)))"
| "py_add (PyFloat x) (PyFloat y) = Inr (PyFloat (fadd x y))"

fun py_mul :: "pynum \<Rightarrow> pynum \<Rightarrow> py_error + pynum" where
  "py_mul (PyInt a) (PyInt b) = Inr (PyInt (a * b))"
| "py_mul (PyInt a) (PyFloat y) = bind_err (int_to_float a) (\<lambda>x. Inr (PyFloat (fmul x y)))"
| "py_mul (PyFloat x) (PyInt b) = bind_err (int_to_float b) (\<lambda>y. Inr (PyFloat (fmul x y)))"
| "py_mul (PyFloat x) (PyFloat y) = Inr (PyFloat (fmul x y))"

text \<open>
  True division \<open>/\<close>. On two ints it is the correctly rounded quotient of the exact
  integers, with no intermediate conversion.
\<close>

fun py_truediv :: "pynum \<Rightarrow> pynum \<Rightarrow> py_error + pynum" where
  "py_truediv (PyInt a) (PyInt b) =
     (if b = 0 then Inl ZeroDivisionError
      else case to_float (of_int a / of_int b) of
             Fin r \<Rightarrow> Inr (PyFloat (Fin r))
           | _ \<Rightarrow> Inl OverflowError)"
| "py_truediv (PyInt a) (PyFloat y) =
     bind_err (int_to_float a) (\<lambda>x. bind_err (fdiv x y) (\<lambda>q. Inr (PyFloat q)))"
| "py_truediv (PyFloat x) (PyInt b) =
     bind_err (int_to_float b) (\<lambda>y. bind_err (fdiv x y) (\<lambda>q. Inr (PyFloat q)))"
| "py_truediv (PyFloat x) (PyFloat y) = bind_err (fdiv x y) (\<lambda>q. Inr (PyFloat q))"

text \<open>The constructor call \<open>float(x)\<close>.\<close>

fun py_float :: "pynum \<Rightarrow> py_error + pyfloat" where
  "py_float (PyInt a) = int_to_float a"
| "py_float (PyFloat x) = Inr x"

subsection \<open>The random number generator\<close>

text \<open>
  \<open>random()\<close> of the standard library returns the next float in \<open>[0, 1)\<close>: a 53-bit
  integer of the generator's output scaled by \<open>2^-53\<close>. The generator is the sequence
  of integers it will produce; a call takes the first and leaves the rest.
\<close>

type_synonym rng = "nat \<Rightarrow> int"

definition random53 :: "int \<Rightarrow> rat" where
  "random53 k = of_int (k mod 2 ^ 53) / 2 ^ 53"

definition random :: "rng \<Rightarrow> pyfloat \<times> rng" where
  "random g = (Fin (random53 (g 0)), \<lambda>n. g (Suc n))"

section \<open>The notebook\<close>

text \<open>The module-level name \<open>MAP_INSTANCES\<close>, read by the methods when they run.\<close>

record globals =
  MAP_INSTANCES :: int

definition module_globals :: globals where
  "module_globals = \<lparr>MAP_INSTANCES = 100\<rparr>"

record EstimatePI =
  randomize_per_map :: int
  total_randomize_points :: int

definition EstimatePI_init :: "globals \<Rightarrow> EstimatePI" where
  "EstimatePI_init gl =
     \<lparr>randomize_per_map = 10000000,
      total_randomize_points = MAP_INSTANCES gl * 10000000\<rparr>"

text \<open>The value of the expression \<open>(x ** 2) + (y ** 2) <= 1\<close>.\<close>

definition in_circle_test :: "libm \<Rightarrow> pyfloat \<Rightarrow> pyfloat \<Rightarrow> py_error + bool" where
  "in_circle_test lm x y =
     bind_err (float_pow2 lm x) (\<lambda>x2.
     bind_err (float_pow2 lm y) (\<lambda>y2.
     Inr (fle (fadd x2 y2) (Fin 1))))"

definition predicate :: "libm \<Rightarrow> rng \<Rightarrow> (py_error + bool) \<times> rng" where
  "predicate lm g =
     (let (x, g1) = random g;
          (y, g2) = random g1
      in (in_circle_test lm x y, g2))"

text \<open>
  The loop \<open>for _ in range(n): in_circle += self.predicate()\<close>; a \<open>bool\<close> added to an
  int counts as 0 or 1.
\<close>

fun count_loop :: "libm \<Rightarrow> nat \<Rightarrow> int \<Rightarrow> rng \<Rightarrow> (py_error + int) \<times> rng" where
  "count_loop lm 0 in_circle g = (Inr in_circle, g)"
| "count_loop lm (Suc n) in_circle g =
     (case predicate lm g of
        (Inl e, g') \<Rightarrow> (Inl e, g')
      | (Inr b, g') \<Rightarrow> count_loop lm n (in_circle + (if b then 1 else 0)) g')"

definition randomize_points ::
    "libm \<Rightarrow> EstimatePI \<Rightarrow> 'a \<Rightarrow> rng \<Rightarrow> (py_error + pyfloat) \<times> rng" where
  "randomize_points lm self data g =
     (case count_loop lm (nat (randomize_per_map self)) 0 g of
        (Inl e, g') \<Rightarrow> (Inl e, g')
      | (Inr in_circle, g') \<Rightarrow>
          (bind_err (py_truediv (PyInt in_circle) (PyInt (randomize_per_map self))) py_float,
           g'))"

text \<open>The loop \<open>for map_result in results: in_circle_percent += map_result\<close>.\<close>

fun sum_loop :: "pynum \<Rightarrow> pyfloat list \<Rightarrow> py_error + pynum" where
  "sum_loop in_circle_percent [] = Inr in_circle_percent"
| "sum_loop in_circle_percent (map_result # results) =
     bind_err (py_add in_circle_percent (PyFloat map_result)) (\<lambda>s. sum_loop s results)"

definition process_in_circle_points ::
    "globals \<Rightarrow> EstimatePI \<Rightarrow> pyfloat list \<Rightarrow> py_error + pyfloat" where
  "process_in_circle_points gl self results =
     bind_err (sum_loop (PyInt 0) results) (\<lambda>in_circle_percent.
     bind_err (py_truediv in_circle_percent (PyInt (MAP_INSTANCES gl))) (\<lambda>q.
     bind_err (py_mul (PyInt 4) q) py_float))"


section \<open>What the specification says\<close>

text \<open>
  The \<open>i\<close>-th pair \<open>(x, y)\<close> of numbers a generator yields satisfies \<open>x\<^sup>2 + y\<^sup>2 \<le> 1\<close>
  in exact arithmetic; \<open>exact_hits T g\<close> counts such pairs among the first \<open>T\<close>.
\<close>

definition exact_hit :: "rng \<Rightarrow> nat \<Rightarrow> bool" where
  "exact_hit g i =
     (let x = random53 (g (2 * i));
          y = random53 (g (2 * i + 1))
      in x * x + y * y \<le> 1)"

definition exact_hits :: "nat \<Rightarrow> rng \<Rightarrow> nat" where
  "exact_hits T g = length (filter (exact_hit g) [0..<T])"

text \<open>
  The same test as float arithmetic evaluates it: each square as the library's \<open>pow\<close>
  returns it, their sum rounded to nearest; \<open>hits lm T g\<close> counts the pairs among the
  first \<open>T\<close> that pass.
\<close>

definition hit :: "libm \<Rightarrow> rng \<Rightarrow> nat \<Rightarrow> bool" where
  "hit lm g i =
     (let x = random53 (g (2 * i));
          y = random53 (g (2 * i + 1))
      in rnd (rnd_toward (lm x) (x * x) + rnd_toward (lm y) (y * y)) \<le> 1)"

definition hits :: "libm \<Rightarrow> nat \<Rightarrow> rng \<Rightarrow> nat" where
  "hits lm T g = length (filter (hit lm g) [0..<T])"

text \<open>The arithmetic mean of a sequence of numbers, in exact arithmetic.\<close>

definition arithmetic_mean :: "rat list \<Rightarrow> rat" where
  "arithmetic_mean xs = sum_list xs / rat_of_nat (length xs)"

text \<open>
  The arithmetic mean of a sequence of floats, multiplied by 4, in float arithmetic:
  the sum from left to right, divided by the number of elements, times 4.
\<close>

definition float_sum :: "pyfloat list \<Rightarrow> pyfloat" where
  "float_sum rs = foldl fadd (Fin 0) rs"


section \<open>Properties of the rounding\<close>

subsection \<open>Powers of two and the binary exponent\<close>

declare bit_length.simps [simp del]

lemma pow2_powi: "pow2 e = power_int 2 e"
  by (simp add: pow2_def power_int_def inverse_eq_divide power_one_over)

lemma pow2_pos: "0 < pow2 e"
  by (simp add: pow2_powi)

lemma pow2_add: "pow2 (a + b) = pow2 a * pow2 b"
  by (simp add: pow2_powi power_int_add)

lemma pow2_mono: "a \<le> b \<Longrightarrow> pow2 a \<le> pow2 b"
  by (simp add: pow2_powi power_int_increasing)

lemma pow2_less_imp: "pow2 a < pow2 b \<Longrightarrow> a < b"
  using pow2_mono [of b a] by (cases "a < b") auto

lemma pow2_nat: "pow2 (int n) = 2 ^ n"
  by (simp add: pow2_def)

lemma pow2_numeral: "pow2 (numeral k) = 2 ^ numeral k"
  by (simp add: pow2_def)

lemma bit_length_pos: "0 < n \<Longrightarrow> 0 < bit_length n"
  by (subst bit_length.simps) simp

lemma bit_length_bounds:
  "0 < n \<Longrightarrow> 2 ^ (bit_length n - 1) \<le> n \<and> n < 2 ^ bit_length n"
proof (induction n rule: bit_length.induct)
  case (1 n)
  have unfold: "bit_length n = Suc (bit_length (n div 2))"
    using "1.prems" by (subst bit_length.simps) simp
  show ?case
  proof (cases "n div 2 \<le> 0")
    case True
    with "1.prems" have "n = 1" by linarith
    then show ?thesis
      by (simp add: bit_length.simps [of 1] bit_length.simps [of 0])
  next
    case False
    then have pos: "0 < n div 2" by simp
    with "1.IH" "1.prems" have IH:
      "2 ^ (bit_length (n div 2) - 1) \<le> n div 2" "n div 2 < 2 ^ bit_length (n div 2)"
      by simp_all
    obtain b where b: "bit_length (n div 2) = Suc b"
      using bit_length_pos [OF pos] by (cases "bit_length (n div 2)") auto
    from IH b have "2 ^ b \<le> n div 2" "n div 2 < 2 * 2 ^ b" by simp_all
    then have "2 * 2 ^ b \<le> n" "n < 2 * (2 * 2 ^ b)" by linarith+
    then show ?thesis by (simp add: unfold b)
  qed
qed

lemma bit_length_bounds_rat:
  assumes "0 < n" and "bit_length n = Suc b"
  shows "(2::rat) ^ b \<le> of_int n \<and> rat_of_int n + 1 \<le> 2 * 2 ^ b"
proof -
  from bit_length_bounds [OF assms(1)] assms(2)
  have nb: "2 ^ b \<le> n" "n + 1 \<le> 2 * 2 ^ b" by simp_all
  from nb(1) have "rat_of_int (2 ^ b) \<le> rat_of_int n" by (simp only: of_int_le_iff)
  moreover from nb(2) have "rat_of_int (n + 1) \<le> rat_of_int (2 * 2 ^ b)"
    by (simp only: of_int_le_iff)
  ultimately show ?thesis by simp
qed

lemma ilog2_bounds:
  assumes "0 < q"
  shows "pow2 (ilog2 q) \<le> q \<and> q < pow2 (ilog2 q + 1)"
proof (cases "1 \<le> q")
  case True
  define n where "n = \<lfloor>q\<rfloor>"
  have npos: "0 < n" using True by (simp add: n_def)
  obtain b where b: "bit_length n = Suc b"
    using bit_length_pos [OF npos] by (cases "bit_length n") auto
  from bit_length_bounds_rat [OF npos b]
  have nb: "(2::rat) ^ b \<le> of_int n" "rat_of_int n + 1 \<le> 2 * 2 ^ b" by simp_all
  have il: "ilog2 q = int b" using True by (simp add: ilog2_def n_def [symmetric] b)
  have "rat_of_int n \<le> q" "q < rat_of_int n + 1"
    using floor_correct [of q] by (simp_all add: n_def)
  with nb have "2 ^ b \<le> q" "q < 2 * 2 ^ b" by linarith+
  then show ?thesis by (simp add: il pow2_def nat_add_distrib)
next
  case False
  define r where "r = 1 / q"
  define n where "n = \<lceil>r\<rceil> - 1"
  have r1: "1 < r" using False assms by (simp add: r_def)
  have npos: "0 < n" using r1 by (simp add: n_def less_ceiling_iff)
  have nr: "rat_of_int n < r" "r \<le> rat_of_int n + 1"
    using ceiling_correct [of r] by (simp_all add: n_def)
  obtain b where b: "bit_length n = Suc b"
    using bit_length_pos [OF npos] by (cases "bit_length n") auto
  from bit_length_bounds_rat [OF npos b]
  have nb: "(2::rat) ^ b \<le> of_int n" "rat_of_int n + 1 \<le> 2 * 2 ^ b" by simp_all
  have il: "ilog2 q = - int (Suc b)"
    using False by (simp add: ilog2_def r_def [symmetric] n_def [symmetric] b)
  from nb nr have lo: "2 ^ b < r" and hi: "r \<le> 2 * 2 ^ b" by linarith+
  have q: "q = 1 / r" using assms by (simp add: r_def)
  have rpos: "0 < r" using r1 by simp
  have "1 / (2 * 2 ^ b) \<le> q"
    unfolding q using hi rpos by (simp add: frac_le)
  moreover have "q < 1 / 2 ^ b"
    unfolding q using lo by (simp add: frac_less2)
  moreover have "pow2 (- int (Suc b)) = 1 / (2 * 2 ^ b)"
    by (simp add: pow2_def nat_add_distrib)
  moreover have "pow2 (- int (Suc b) + 1) = 1 / 2 ^ b"
    by (simp add: pow2_def)
  ultimately show ?thesis by (simp add: il)
qed

subsection \<open>Rounding an integer quotient half to even\<close>

lemma rhe_cases:
  "round_half_even s = \<lfloor>s\<rfloor> \<or> round_half_even s = \<lfloor>s\<rfloor> + 1"
  by (simp add: round_half_even_def Let_def)

lemma rhe_error: "\<bar>rat_of_int (round_half_even s) - s\<bar> \<le> 1 / 2"
proof -
  have "rat_of_int \<lfloor>s\<rfloor> \<le> s" "s < rat_of_int \<lfloor>s\<rfloor> + 1"
    using floor_correct [of s] by simp_all
  then show ?thesis
    by (auto simp add: round_half_even_def Let_def)
qed

lemma rhe_of_int: "round_half_even (rat_of_int n) = n"
  by (simp add: round_half_even_def)

lemma rhe_ge:
  assumes "rat_of_int n \<le> s"
  shows "n \<le> round_half_even s"
proof -
  have "n \<le> \<lfloor>s\<rfloor>" using assms by (simp add: le_floor_iff)
  then show ?thesis using rhe_cases [of s] by linarith
qed

lemma rhe_le:
  assumes "s \<le> rat_of_int n"
  shows "round_half_even s \<le> n"
proof (cases "s = rat_of_int \<lfloor>s\<rfloor>")
  case True
  then have "round_half_even s = \<lfloor>s\<rfloor>"
    using rhe_of_int [of "\<lfloor>s\<rfloor>"] by simp
  moreover have "\<lfloor>s\<rfloor> \<le> n" using assms by (simp add: floor_le_iff)
  ultimately show ?thesis by simp
next
  case False
  then have "rat_of_int \<lfloor>s\<rfloor> < s"
    using of_int_floor_le [of s] by (auto simp add: less_le)
  with assms have "rat_of_int \<lfloor>s\<rfloor> < rat_of_int n" by simp
  then have "\<lfloor>s\<rfloor> < n" by (simp only: of_int_less_iff)
  then show ?thesis using rhe_cases [of s] by auto
qed

lemma rhe_neg: "round_half_even (- s) = - round_half_even s"
proof (cases "s = rat_of_int \<lfloor>s\<rfloor>")
  case True
  then obtain n where "s = rat_of_int n" ..
  then have "- s = rat_of_int (- n)" by simp
  then show ?thesis unfolding \<open>s = rat_of_int n\<close>
    by (simp only: rhe_of_int)
next
  case False
  define f where "f = \<lfloor>s\<rfloor>"
  have fs: "rat_of_int f < s" "s < rat_of_int f + 1"
    using floor_correct [of s] False by (auto simp add: f_def less_le)
  have fl: "\<lfloor>- s\<rfloor> = - f - 1"
    using fs by (intro floor_unique) simp_all
  show ?thesis
    using fs by (auto simp add: round_half_even_def Let_def fl f_def [symmetric])
qed

subsection \<open>Error and monotonicity of the rounding\<close>

lemma ulp_exp_ge: "- 1074 \<le> ulp_exp q"
  by (simp add: ulp_exp_def)

lemma ulp_exp_upper:
  assumes "q \<noteq> 0"
  shows "\<bar>q\<bar> < pow2 (ulp_exp q + 53)"
proof -
  have "\<bar>q\<bar> < pow2 (ilog2 \<bar>q\<bar> + 1)" using ilog2_bounds [of "\<bar>q\<bar>"] assms by simp
  also have "\<dots> \<le> pow2 (ulp_exp q + 53)"
    by (rule pow2_mono) (simp add: ulp_exp_def)
  finally show ?thesis .
qed

lemma ulp_exp_lower:
  assumes "q \<noteq> 0" and "ulp_exp q \<noteq> - 1074"
  shows "pow2 (ulp_exp q + 52) \<le> \<bar>q\<bar>"
proof -
  from assms(2) have "ulp_exp q = ilog2 \<bar>q\<bar> - 52" by (simp add: ulp_exp_def max_def split: if_splits)
  then show ?thesis using ilog2_bounds [of "\<bar>q\<bar>"] assms(1) by simp
qed

lemma ulp_exp_neg: "ulp_exp (- q) = ulp_exp q"
  by (simp add: ulp_exp_def)

lemma rnd_0: "rnd 0 = 0"
  by (simp add: rnd_def)

lemma rnd_neg: "rnd (- q) = - rnd q"
  by (simp add: rnd_def ulp_exp_neg rhe_neg)

lemma rnd_error:
  "\<bar>rnd q - q\<bar> \<le> pow2 (ulp_exp q) / 2"
proof (cases "q = 0")
  case True
  then show ?thesis using pow2_pos [of "ulp_exp 0"] by (simp add: rnd_0)
next
  case False
  define p where "p = pow2 (ulp_exp q)"
  have ppos: "0 < p" by (simp add: p_def pow2_pos)
  define s where "s = q / p"
  have sp: "s * p = q" using ppos by (simp add: s_def)
  have r: "rnd q = rat_of_int (round_half_even s) * p"
    using False by (simp add: rnd_def p_def s_def)
  have "rnd q - q = (rat_of_int (round_half_even s) - s) * p"
    unfolding r by (simp add: left_diff_distrib sp)
  then have "\<bar>rnd q - q\<bar> = \<bar>rat_of_int (round_half_even s) - s\<bar> * p"
    using ppos by (simp add: abs_mult)
  also have "\<dots> \<le> (1 / 2) * p"
    using rhe_error [of s] ppos by (intro mult_right_mono) simp_all
  finally show ?thesis by (simp add: p_def)
qed

lemma rnd_error_bound:
  assumes "\<bar>q\<bar> \<le> B" and "1 \<le> B"
  shows "\<bar>rnd q - q\<bar> \<le> B / 2 ^ 53"
proof (cases "q = 0")
  case True
  then show ?thesis using assms(2) by (simp add: rnd_0)
next
  case False
  have "pow2 (ulp_exp q) \<le> B / 2 ^ 52"
  proof (cases "ulp_exp q = - 1074")
    case True
    have "pow2 (- 1074) \<le> pow2 (- 52)" by (rule pow2_mono) simp
    also have "\<dots> = 1 / 2 ^ 52" by (simp add: pow2_def)
    also have "\<dots> \<le> B / 2 ^ 52" using assms(2) by (simp add: divide_right_mono)
    finally show ?thesis by (simp add: True)
  next
    case False
    have "pow2 (ulp_exp q) * 2 ^ 52 = pow2 (ulp_exp q + 52)"
      by (simp add: pow2_add pow2_numeral)
    also have "\<dots> \<le> \<bar>q\<bar>" by (rule ulp_exp_lower [OF \<open>q \<noteq> 0\<close> False])
    also have "\<dots> \<le> B" by (rule assms(1))
    finally show ?thesis by (simp add: pos_le_divide_eq)
  qed
  then have "pow2 (ulp_exp q) / 2 \<le> B / 2 ^ 52 / 2" by (simp add: divide_right_mono)
  with rnd_error [of q] show ?thesis by simp
qed

lemma rnd_nonneg: "0 \<le> q \<Longrightarrow> 0 \<le> rnd q"
  using rhe_ge [of 0 "q / pow2 (ulp_exp q)"] pow2_pos [of "ulp_exp q"]
  by (simp add: rnd_def)

text \<open>
  A bound with at most 53 significant bits at or above the subnormal spacing lies on the
  grid of the numbers below it: above the scaled \<open>q\<close> there is an integer whose grid
  point does not exceed the bound.
\<close>

lemma grid_point_below_double:
  assumes q0: "q \<noteq> 0" and qb: "q \<le> rat_of_int m * pow2 e"
    and m: "\<bar>m\<bar> \<le> 2 ^ 53" and e: "- 1074 \<le> e"
  shows "\<exists>n. q / pow2 (ulp_exp q) \<le> rat_of_int n
           \<and> rat_of_int n * pow2 (ulp_exp q) \<le> rat_of_int m * pow2 e"
proof -
  define b where "b = rat_of_int m * pow2 e"
  define p where "p = ulp_exp q"
  define s where "s = q / pow2 p"
  have ppos: "0 < pow2 p" by (rule pow2_pos)
  have "\<exists>n. s \<le> rat_of_int n \<and> rat_of_int n * pow2 p \<le> b"
  proof (cases "p \<le> e")
    case True
    define n where "n = m * 2 ^ nat (e - p)"
    have "pow2 e = pow2 (e - p) * pow2 p" using pow2_add [of "e - p" p] by simp
    also have "pow2 (e - p) = 2 ^ nat (e - p)" using True by (simp add: pow2_def)
    finally have "rat_of_int n * pow2 p = b" by (simp add: n_def b_def)
    moreover have "s \<le> rat_of_int n"
      using qb ppos \<open>rat_of_int n * pow2 p = b\<close>
      by (simp add: s_def b_def [symmetric] pos_divide_le_eq)
    ultimately show ?thesis by auto
  next
    case nle: False
    with e have "p \<noteq> - 1074" by simp
    then have lower: "pow2 (p + 52) \<le> \<bar>q\<bar>"
      using ulp_exp_lower [OF q0] by (simp add: p_def)
    have p52: "pow2 (p + 52) = 2 ^ 52 * pow2 p" by (simp add: pow2_add pow2_numeral)
    have "\<bar>rat_of_int m\<bar> \<le> 2 ^ 53"
    proof -
      from m have "rat_of_int \<bar>m\<bar> \<le> rat_of_int (2 ^ 53)" by (simp only: of_int_le_iff)
      then show ?thesis by simp
    qed
    then have "\<bar>b\<bar> \<le> 2 ^ 53 * pow2 e"
      using pow2_pos [of e] by (simp add: b_def abs_mult mult_right_mono)
    also have "\<dots> = pow2 (e + 53)" by (simp add: pow2_add pow2_numeral)
    also have "\<dots> \<le> pow2 (p + 52)" using nle by (intro pow2_mono) simp
    finally have babs: "\<bar>b\<bar> \<le> pow2 (p + 52)" .
    show ?thesis
    proof (cases "q < 0")
      case True
      with lower have "q \<le> - (2 ^ 52 * pow2 p)" by (simp add: p52)
      then have "s \<le> rat_of_int (- (2 ^ 52))"
        using ppos by (simp add: s_def pos_divide_le_eq)
      moreover have "rat_of_int (- (2 ^ 52)) * pow2 p \<le> b"
        using babs by (simp add: p52)
      ultimately show ?thesis by blast
    next
      case qpos: False
      with lower have "pow2 (p + 52) \<le> q" by simp
      with qb babs have "q = pow2 (p + 52)" "b = pow2 (p + 52)"
        by (simp_all add: b_def [symmetric])
      then have "s \<le> rat_of_int (2 ^ 52)" "rat_of_int (2 ^ 52) * pow2 p \<le> b"
        using ppos by (simp_all add: s_def p52)
      then show ?thesis by blast
    qed
  qed
  then show ?thesis by (simp add: s_def p_def b_def)
qed

lemma rnd_le_double:
  assumes qb: "q \<le> rat_of_int m * pow2 e"
    and m: "\<bar>m\<bar> \<le> 2 ^ 53" and e: "- 1074 \<le> e"
  shows "rnd q \<le> rat_of_int m * pow2 e"
proof (cases "q = 0")
  case True
  then show ?thesis using qb by (simp add: rnd_0)
next
  case False
  from grid_point_below_double [OF False qb m e]
  obtain n where n: "q / pow2 (ulp_exp q) \<le> rat_of_int n"
      "rat_of_int n * pow2 (ulp_exp q) \<le> rat_of_int m * pow2 e"
    by blast
  from rhe_le [OF n(1)]
  have "rat_of_int (round_half_even (q / pow2 (ulp_exp q))) \<le> rat_of_int n"
    by (simp only: of_int_le_iff)
  then have "rnd q \<le> rat_of_int n * pow2 (ulp_exp q)"
    using False pow2_pos [of "ulp_exp q"] by (simp add: rnd_def mult_right_mono)
  with n(2) show ?thesis by simp
qed

text \<open>The two enclosing floats stay between the same bounds.\<close>

lemma rnd_toward_le_double:
  assumes qb: "q \<le> rat_of_int m * pow2 e"
    and m: "\<bar>m\<bar> \<le> 2 ^ 53" and e: "- 1074 \<le> e"
  shows "rnd_toward upper q \<le> rat_of_int m * pow2 e"
proof (cases "q = 0")
  case True
  then show ?thesis using qb by (simp add: rnd_toward_def)
next
  case False
  define s where "s = q / pow2 (ulp_exp q)"
  from grid_point_below_double [OF False qb m e]
  obtain n where n: "s \<le> rat_of_int n"
      "rat_of_int n * pow2 (ulp_exp q) \<le> rat_of_int m * pow2 e"
    unfolding s_def by blast
  define k where "k = (if upper then \<lceil>s\<rceil> else \<lfloor>s\<rfloor>)"
  have c: "\<lceil>s\<rceil> \<le> n" using n(1) by (simp add: ceiling_le_iff)
  have f: "\<lfloor>s\<rfloor> \<le> n" using n(1) by (simp add: floor_le_iff)
  have "k \<le> n" by (simp add: k_def c f)
  then have "rat_of_int k \<le> rat_of_int n" by (simp only: of_int_le_iff)
  then have "rat_of_int k * pow2 (ulp_exp q) \<le> rat_of_int n * pow2 (ulp_exp q)"
    using pow2_pos [of "ulp_exp q"] by (intro mult_right_mono) simp_all
  moreover have "rnd_toward upper q = rat_of_int k * pow2 (ulp_exp q)"
    using False by (simp add: rnd_toward_def s_def k_def)
  ultimately show ?thesis using n(2) by simp
qed

lemma rnd_toward_nonneg: "0 \<le> q \<Longrightarrow> 0 \<le> rnd_toward upper q"
proof -
  assume q: "0 \<le> q"
  then have s: "0 \<le> q / pow2 (ulp_exp q)" using pow2_pos [of "ulp_exp q"] by simp
  then have "0 \<le> \<lfloor>q / pow2 (ulp_exp q)\<rfloor>" "0 \<le> \<lceil>q / pow2 (ulp_exp q)\<rceil>"
    by (simp_all add: le_floor_iff order_trans [OF _ le_of_int_ceiling])
  then show ?thesis using pow2_pos [of "ulp_exp q"] by (simp add: rnd_toward_def)
qed

lemma rnd_ge_double:
  assumes "rat_of_int m * pow2 e \<le> q" and "\<bar>m\<bar> \<le> 2 ^ 53" and "- 1074 \<le> e"
  shows "rat_of_int m * pow2 e \<le> rnd q"
  using rnd_le_double [of "- q" "- m" e] assms by (simp add: rnd_neg)

lemma rnd_le_int: "q \<le> rat_of_int k \<Longrightarrow> \<bar>k\<bar> \<le> 2 ^ 53 \<Longrightarrow> rnd q \<le> rat_of_int k"
  using rnd_le_double [of q k 0] by (simp add: pow2_def)

lemma rnd_ge_int: "rat_of_int k \<le> q \<Longrightarrow> \<bar>k\<bar> \<le> 2 ^ 53 \<Longrightarrow> rat_of_int k \<le> rnd q"
  using rnd_ge_double [of k 0 q] by (simp add: pow2_def)

lemma rnd_int: "\<bar>k\<bar> \<le> 2 ^ 53 \<Longrightarrow> rnd (rat_of_int k) = rat_of_int k"
  using rnd_le_int [of "rat_of_int k" k] rnd_ge_int [of k "rat_of_int k"] by simp

lemma to_float_finite:
  assumes "\<bar>rnd q\<bar> < pow2 1024"
  shows "to_float q = Fin (rnd q)"
proof (cases "rnd q = 0")
  case True
  then show ?thesis by (simp add: to_float_def)
next
  case False
  then have "pow2 (ilog2 \<bar>rnd q\<bar>) \<le> \<bar>rnd q\<bar>" using ilog2_bounds [of "\<bar>rnd q\<bar>"] by simp
  with assms have "pow2 (ilog2 \<bar>rnd q\<bar>) < pow2 1024" by simp
  then have "ilog2 \<bar>rnd q\<bar> < 1024" by (rule pow2_less_imp)
  then show ?thesis using False by (simp add: to_float_def)
qed

lemma to_float_bounded:
  assumes "0 \<le> q" and "q \<le> rat_of_int k" and "k \<le> 2 ^ 53"
  shows "to_float q = Fin (rnd q) \<and> 0 \<le> rnd q \<and> rnd q \<le> rat_of_int k"
proof -
  have k0: "0 \<le> rat_of_int k" using assms(1,2) by simp
  then have "0 \<le> k" by simp
  with assms(3) have "\<bar>k\<bar> \<le> 2 ^ 53" by simp
  from rnd_le_int [OF assms(2) this] have hi: "rnd q \<le> rat_of_int k" .
  have lo: "0 \<le> rnd q" by (rule rnd_nonneg [OF assms(1)])
  have "rat_of_int k \<le> rat_of_int (2 ^ 53)" using assms(3) by (simp only: of_int_le_iff)
  then have "rat_of_int k \<le> 2 ^ 53" by simp
  also have "(2::rat) ^ 53 < 2 ^ 1024" by simp
  finally have "rat_of_int k < pow2 1024" by (simp add: pow2_def)
  with hi lo have "\<bar>rnd q\<bar> < pow2 1024" by simp
  from to_float_finite [OF this] hi lo show ?thesis by simp
qed

subsection \<open>Evaluating the model on numerals\<close>

text \<open>
  The rules that let the simplifier compute a float operation on numerals: the
  definitions of the rounding, floor and ceiling of a quotient of numerals, and the
  sequencing of \<open>bind_err\<close>, which evaluates its first argument before its second.
\<close>

lemma bind_err_Inr: "bind_err (Inr x) f = f x"
  by (simp add: bind_err_def)

lemma bind_err_Inl: "bind_err (Inl e) f = Inl e"
  by (simp add: bind_err_def)

lemma floor_rat_numeral_div: "\<lfloor>numeral a / numeral b :: rat\<rfloor> = numeral a div numeral b"
  using floor_divide_of_int_eq [of "numeral a" "numeral b", where ?'a = rat] by simp

lemma ceiling_rat_numeral_div:
  "\<lceil>numeral a / numeral b :: rat\<rceil> = - (- numeral a div numeral b)"
  using ceiling_divide_eq_div [of "numeral a" "numeral b"]
  by (metis ceiling_def floor_divide_of_int_eq minus_divide_left of_int_minus of_int_numeral)

lemma replicate_numeral_Cons: "replicate (numeral k) x = x # replicate (pred_numeral k) x"
  by (simp add: numeral_eq_Suc)

lemma bind_err_weak_cong: "m = m' \<Longrightarrow> bind_err m f = bind_err m' f"
  by simp

lemmas float_eval = to_float_def rnd_def ulp_exp_def ilog2_def pow2_def round_half_even_def
  Let_def bit_length.simps floor_rat_numeral_div ceiling_rat_numeral_div int_to_float_def
  bind_err_Inr bind_err_Inl replicate_numeral_Cons

section \<open>The sampler\<close>

lemma random53_range: "0 \<le> random53 k \<and> random53 k < 1"
proof -
  have "0 \<le> k mod 2 ^ 53" "k mod 2 ^ 53 < 2 ^ 53" by simp_all
  then have "0 \<le> rat_of_int (k mod 2 ^ 53)" "rat_of_int (k mod 2 ^ 53) < rat_of_int (2 ^ 53)"
    by (simp_all only: of_int_0_le_iff of_int_less_iff)
  then show ?thesis by (simp add: random53_def)
qed

text \<open>On \<open>[0, 1]\<close> the library's square is a float of \<open>[0, 1]\<close>, whichever way it rounds.\<close>

lemma float_pow2_unit:
  assumes "0 \<le> a" and "a \<le> 1"
  shows "float_pow2 lm (Fin a) = Inr (Fin (rnd_toward (lm a) (a * a)))
       \<and> 0 \<le> rnd_toward (lm a) (a * a) \<and> rnd_toward (lm a) (a * a) \<le> 1"
proof -
  define r where "r = rnd_toward (lm a) (a * a)"
  have "a * a \<le> 1 * 1" using assms by (intro mult_mono) simp_all
  then have sq: "0 \<le> a * a" "a * a \<le> rat_of_int 1 * pow2 0" by (simp_all add: pow2_def)
  have r0: "0 \<le> r" unfolding r_def by (rule rnd_toward_nonneg [OF sq(1)])
  have "r \<le> rat_of_int 1 * pow2 0" unfolding r_def by (rule rnd_toward_le_double [OF sq(2)]) simp_all
  then have r1: "r \<le> 1" by (simp add: pow2_def)
  have "\<not> 1023 < ilog2 \<bar>r\<bar>" if "r \<noteq> 0"
  proof -
    have "pow2 (ilog2 \<bar>r\<bar>) \<le> \<bar>r\<bar>" using ilog2_bounds [of "\<bar>r\<bar>"] that by simp
    also have "\<bar>r\<bar> \<le> 1" using r0 r1 by simp
    also have "(1::rat) < pow2 1024" by (simp add: pow2_def)
    finally have "ilog2 \<bar>r\<bar> < 1024" by (rule pow2_less_imp)
    then show ?thesis by simp
  qed
  then have "float_pow2 lm (Fin a) = Inr (Fin r)"
    by (auto simp add: r_def Let_def)
  with r0 r1 show ?thesis by (simp add: r_def)
qed

lemma in_circle_test_unit:
  assumes "0 \<le> a" "a \<le> 1" "0 \<le> b" "b \<le> 1"
  shows "in_circle_test lm (Fin a) (Fin b)
       = Inr (rnd (rnd_toward (lm a) (a * a) + rnd_toward (lm b) (b * b)) \<le> 1)"
proof -
  note A = float_pow2_unit [OF assms(1,2), of lm] and B = float_pow2_unit [OF assms(3,4), of lm]
  have "0 \<le> rnd_toward (lm a) (a * a) + rnd_toward (lm b) (b * b)"
    "rnd_toward (lm a) (a * a) + rnd_toward (lm b) (b * b) \<le> rat_of_int 2"
    using A B by simp_all
  from to_float_bounded [OF this] A B show ?thesis
    by (simp add: in_circle_test_def bind_err_Inr)
qed

lemma predicate_hit: "predicate lm g = (Inr (hit lm g 0), \<lambda>n. g (Suc (Suc n)))"
proof -
  from random53_range [of "g 0"] random53_range [of "g (Suc 0)"]
  have "0 \<le> random53 (g 0)" "random53 (g 0) \<le> 1"
    "0 \<le> random53 (g (Suc 0))" "random53 (g (Suc 0)) \<le> 1"
    by simp_all
  from in_circle_test_unit [OF this] show ?thesis
    by (simp add: predicate_def random_def hit_def Let_def)
qed

lemma hit_shift: "hit lm (\<lambda>n. g (Suc (Suc n))) = (\<lambda>i. hit lm g (Suc i))"
  by (rule ext) (simp add: hit_def Let_def)

lemma hits_Suc:
  "hits lm (Suc n) g = (if hit lm g 0 then 1 else 0) + hits lm n (\<lambda>k. g (Suc (Suc k)))"
proof -
  have "[0..<Suc n] = 0 # map Suc [0..<n]"
    by (simp add: upt_conv_Cons map_Suc_upt del: upt_Suc)
  then show ?thesis
    by (simp add: hits_def filter_map o_def hit_shift del: upt_Suc)
qed

lemma hits_le: "hits lm n g \<le> n"
  using length_filter_le [of "hit lm g" "[0..<n]"] by (simp add: hits_def)

lemma count_loop_hits:
  "count_loop lm n c g = (Inr (c + int (hits lm n g)), \<lambda>k. g (k + 2 * n))"
proof (induction n arbitrary: c g)
  case 0
  show ?case by (simp add: hits_def)
next
  case (Suc n)
  show ?case
    by (simp add: predicate_hit Suc.IH hits_Suc add.assoc add.commute add.left_commute)
qed

lemma randomize_points_eq:
  assumes "0 < randomize_per_map self"
  shows "randomize_points lm self data g =
     (Inr (Fin (rnd (rat_of_int (int (hits lm (nat (randomize_per_map self)) g))
                      / rat_of_int (randomize_per_map self)))),
      \<lambda>n. g (n + 2 * nat (randomize_per_map self)))
   \<and> 0 \<le> rnd (rat_of_int (int (hits lm (nat (randomize_per_map self)) g))
                      / rat_of_int (randomize_per_map self))
   \<and> rnd (rat_of_int (int (hits lm (nat (randomize_per_map self)) g))
                      / rat_of_int (randomize_per_map self)) \<le> 1"
proof -
  define T where "T = randomize_per_map self"
  define h where "h = int (hits lm (nat T) g)"
  have Tpos: "0 < T" using assms by (simp add: T_def)
  have "h \<le> T" using hits_le [of lm "nat T" g] Tpos by (simp add: h_def)
  then have "rat_of_int h \<le> rat_of_int T" by (simp only: of_int_le_iff)
  moreover have "0 \<le> rat_of_int h" by (simp add: h_def)
  moreover have "0 < rat_of_int T" using Tpos by simp
  ultimately have "0 \<le> rat_of_int h / rat_of_int T" "rat_of_int h / rat_of_int T \<le> rat_of_int 1"
    by simp_all
  from to_float_bounded [OF this]
  have tf: "to_float (rat_of_int h / rat_of_int T) = Fin (rnd (rat_of_int h / rat_of_int T))"
    and bounds: "0 \<le> rnd (rat_of_int h / rat_of_int T)" "rnd (rat_of_int h / rat_of_int T) \<le> 1"
    by simp_all
  have "randomize_points lm self data g =
     (Inr (Fin (rnd (rat_of_int h / rat_of_int T))), \<lambda>n. g (n + 2 * nat T))"
    using Tpos
    by (simp add: randomize_points_def T_def [symmetric] count_loop_hits h_def [symmetric]
        tf bind_err_Inr)
  with bounds show ?thesis by (simp add: T_def h_def)
qed

text \<open>
  The library decides reachable pairs: on the draws \<open>4210507982892442\<close> and
  \<open>7962490875386025\<close> the test fails when \<open>pow\<close> returns the upper float for both squares
  and passes when it returns the lower one for both.
\<close>

lemma library_decides_hit:
  "\<not> hit (\<lambda>a. True) (\<lambda>n. if n = 0 then 4210507982892442 else 7962490875386025) 0
   \<and> hit (\<lambda>a. False) (\<lambda>n. if n = 0 then 4210507982892442 else 7962490875386025) 0"
  by (simp add: hit_def random53_def rnd_toward_def float_eval)

text \<open>
  A pair just outside the circle that the float test accepts: \<open>x = 1 - 2\<^sup>-\<^sup>5\<^sup>3\<close> and
  \<open>y = 2\<^sup>-\<^sup>2\<^sup>6\<close> have \<open>x\<^sup>2 + y\<^sup>2 = 1 + 2\<^sup>-\<^sup>1\<^sup>0\<^sup>6\<close>, and the float sum of their squares is
  \<open>1.0\<close> whichever of the two enclosing floats the library returns for \<open>x\<^sup>2\<close>. A generator
  that yields this pair first makes the sampler with one trial return \<open>1.0\<close>, for
  every library.
\<close>

lemma boundary_hit: "hit lm (\<lambda>n. if n = 0 then 2 ^ 53 - 1 else 2 ^ 27) 0"
  by (cases "lm (random53 ((\<lambda>n. if n = 0 then 2 ^ 53 - 1 else 2 ^ 27) 0))";
      cases "lm (random53 ((\<lambda>n. if n = 0 then 2 ^ 53 - 1 else 2 ^ 27) (Suc 0)))")
     (simp_all add: hit_def random53_def rnd_toward_def float_eval)

lemma boundary_not_exact_hit: "\<not> exact_hit (\<lambda>n. if n = 0 then 2 ^ 53 - 1 else 2 ^ 27) 0"
  by (simp add: exact_hit_def random53_def)

lemma boundary_counted:
  "fst (randomize_points lm \<lparr>randomize_per_map = 1, total_randomize_points = 100\<rparr> ()
         (\<lambda>n. if n = 0 then 2 ^ 53 - 1 else 2 ^ 27)) = Inr (Fin 1)
   \<and> exact_hits 1 (\<lambda>n. if n = 0 then 2 ^ 53 - 1 else 2 ^ 27) = 0"
proof -
  have "hits lm (Suc 0) (\<lambda>n. if n = 0 then 2 ^ 53 - 1 else 2 ^ 27) = 1"
    using boundary_hit [of lm] by (simp add: hits_def)
  moreover have "rnd 1 = 1" using rnd_int [of 1] by simp
  moreover have "exact_hits 1 (\<lambda>n. if n = 0 then 2 ^ 53 - 1 else 2 ^ 27) = 0"
    using boundary_not_exact_hit by (simp add: exact_hits_def)
  ultimately show ?thesis
    using randomize_points_eq
      [of "\<lparr>randomize_per_map = 1, total_randomize_points = 100\<rparr>" lm "()"
          "(\<lambda>n. if n = 0 then 2 ^ 53 - 1 else 2 ^ 27)"]
    by simp
qed

text \<open>
  C1, as the code has it. For every trial count \<open>T > 0\<close> (the attribute
  \<open>randomize_per_map\<close>) and every C library, the sampler \<open>randomize_points\<close> takes \<open>T\<close>
  pairs of numbers from the generator (\<open>2 T\<close> draws), counts the pairs for which the float
  evaluation of \<open>(x ** 2) + (y ** 2) <= 1\<close> is true, and returns that count divided by
  \<open>T\<close> as a float: the binary64 number nearest the quotient. No exception arises. The
  pairs counted are those of \<open>hit\<close>, not those of the exact circle.
\<close>

theorem randomize_points_fraction:
  assumes "0 < randomize_per_map self"
  shows "randomize_points lm self data g =
     (Inr (Fin (rnd (rat_of_int (int (hits lm (nat (randomize_per_map self)) g))
                      / rat_of_int (randomize_per_map self)))),
      \<lambda>n. g (n + 2 * nat (randomize_per_map self)))"
  using randomize_points_eq [OF assms, of lm data g] by simp

theorem randomize_points_fraction_witness:
  "0 < randomize_per_map (EstimatePI_init module_globals) \<and>
   randomize_points (\<lambda>a. False) (EstimatePI_init module_globals) () (\<lambda>n. int n * 2 ^ 51) =
     (Inr (Fin (rnd (rat_of_int (int (hits (\<lambda>a. False) (nat (randomize_per_map
              (EstimatePI_init module_globals))) (\<lambda>n. int n * 2 ^ 51)))
            / rat_of_int (randomize_per_map (EstimatePI_init module_globals))))),
      \<lambda>n. int (n + 2 * nat (randomize_per_map (EstimatePI_init module_globals))) * 2 ^ 51)"
proof -
  have h: "0 < randomize_per_map (EstimatePI_init module_globals)"
    by (simp add: EstimatePI_init_def)
  show ?thesis
    by (intro conjI h randomize_points_fraction [OF h])
qed

text \<open>
  C1, as stated, fails: with one trial and the pair \<open>x = 1 - 2\<^sup>-\<^sup>5\<^sup>3\<close>, \<open>y = 2\<^sup>-\<^sup>2\<^sup>6\<close> no pair
  satisfies \<open>x\<^sup>2 + y\<^sup>2 \<le> 1\<close>, so the claim has the sampler return \<open>0 / 1 = 0.0\<close>; it
  returns \<open>1.0\<close>. The library here rounds the square down; \<open>boundary_counted\<close> shows the
  same for every library.
\<close>

theorem randomize_points_fraction_counterexample:
  "exact_hits 1 (\<lambda>n. if n = 0 then 2 ^ 53 - 1 else 2 ^ 27) = 0
   \<and> fst (randomize_points (\<lambda>a. False) \<lparr>randomize_per_map = 1, total_randomize_points = 100\<rparr> ()
            (\<lambda>n. if n = 0 then 2 ^ 53 - 1 else 2 ^ 27)) = Inr (Fin 1)
   \<and> fst (randomize_points (\<lambda>a. False) \<lparr>randomize_per_map = 1, total_randomize_points = 100\<rparr> ()
            (\<lambda>n. if n = 0 then 2 ^ 53 - 1 else 2 ^ 27))
       \<noteq> Inr (Fin (rnd (rat_of_nat (exact_hits 1 (\<lambda>n. if n = 0 then 2 ^ 53 - 1 else 2 ^ 27))
                         / rat_of_int (randomize_per_map
                             \<lparr>randomize_per_map = 1, total_randomize_points = 100\<rparr>))))"
proof -
  note b = boundary_counted [of "(\<lambda>a. False)"]
  have "rnd (rat_of_nat 0 / rat_of_int 1) \<noteq> 1" by (simp add: rnd_0)
  with b show ?thesis by simp
qed

text \<open>
  C7. For every trial count \<open>T > 0\<close>, the sampler returns a finite float in the closed
  interval \<open>[0, 1]\<close>, whatever the generator yields and whichever way the library's
  \<open>pow\<close> rounds.
\<close>

theorem randomize_points_unit_interval:
  assumes "0 < randomize_per_map self"
  shows "\<exists>r. fst (randomize_points lm self data g) = Inr (Fin r) \<and> 0 \<le> r \<and> r \<le> 1"
  using randomize_points_eq [OF assms, of lm data g] by simp

theorem randomize_points_unit_interval_witness:
  "0 < randomize_per_map (EstimatePI_init module_globals) \<and>
   (\<exists>r. fst (randomize_points (\<lambda>a. False) (EstimatePI_init module_globals) () (\<lambda>n. int n * 2 ^ 51))
          = Inr (Fin r) \<and> 0 \<le> r \<and> r \<le> 1)"
proof -
  have h: "0 < randomize_per_map (EstimatePI_init module_globals)"
    by (simp add: EstimatePI_init_def)
  show ?thesis
    by (intro conjI h randomize_points_unit_interval [OF h])
qed

text \<open>
  C8. With one trial per task the sampler returns exactly \<open>0.0\<close> or exactly \<open>1.0\<close>,
  for every pair the generator yields and every library.
\<close>

theorem randomize_points_single_trial:
  assumes "randomize_per_map self = 1"
  shows "fst (randomize_points lm self data g) = Inr (Fin 0)
       \<or> fst (randomize_points lm self data g) = Inr (Fin 1)"
proof -
  have pos: "0 < randomize_per_map self" using assms by simp
  have "hits lm (Suc 0) g = 0 \<or> hits lm (Suc 0) g = 1"
    using hits_le [of lm "Suc 0" g] by auto
  moreover have "rnd 1 = 1" using rnd_int [of 1] by simp
  ultimately show ?thesis
    using randomize_points_eq [OF pos, of lm data g] by (auto simp add: assms rnd_0)
qed

theorem randomize_points_single_trial_witness:
  "randomize_per_map \<lparr>randomize_per_map = 1, total_randomize_points = 100\<rparr> = 1 \<and>
   (fst (randomize_points (\<lambda>a. False) \<lparr>randomize_per_map = 1, total_randomize_points = 100\<rparr> ()
          (\<lambda>n. int n * 2 ^ 51)) = Inr (Fin 0)
    \<or> fst (randomize_points (\<lambda>a. False) \<lparr>randomize_per_map = 1, total_randomize_points = 100\<rparr> ()
          (\<lambda>n. int n * 2 ^ 51)) = Inr (Fin 1))"
proof -
  have h: "randomize_per_map \<lparr>randomize_per_map = 1, total_randomize_points = 100\<rparr> = 1"
    by simp
  show ?thesis
    by (intro conjI h randomize_points_single_trial [OF h])
qed

text \<open>
  C9. The argument \<open>data\<close> is ignored: two runs of the sampler on the same generator
  return the same result and leave the generator in the same state, whatever the two
  data arguments are.
\<close>

theorem randomize_points_ignores_data:
  "randomize_points lm self data1 g = randomize_points lm self data2 g"
  by (simp add: randomize_points_def)

section \<open>The reducer\<close>

lemma int_to_float_small:
  assumes "0 \<le> k" and "k \<le> 2 ^ 53"
  shows "int_to_float k = Inr (Fin (rat_of_int k))"
proof -
  have "0 \<le> rat_of_int k" "rat_of_int k \<le> rat_of_int k" using assms(1) by simp_all
  from to_float_bounded [OF this assms(2)] rnd_int [of k] assms
  show ?thesis by (simp add: int_to_float_def)
qed

lemma int_to_float_0: "int_to_float 0 = Inr (Fin 0)"
  using int_to_float_small [of 0] by simp

lemma int_to_float_4: "int_to_float 4 = Inr (Fin 4)"
  using int_to_float_small [of 4] by simp

lemma to_float_0: "to_float 0 = Fin 0"
  by (simp add: to_float_def rnd_0)

lemma sum_loop_float: "sum_loop (PyFloat a) rs = Inr (PyFloat (foldl fadd a rs))"
  by (induction rs arbitrary: a) (simp_all add: bind_err_Inr)

lemma sum_loop_start:
  "sum_loop (PyInt 0) rs = Inr (if rs = [] then PyInt 0 else PyFloat (float_sum rs))"
  by (cases rs) (simp_all add: int_to_float_0 bind_err_Inr sum_loop_float float_sum_def)


lemma process_empty:
  "process_in_circle_points gl self [] =
     (if MAP_INSTANCES gl = 0 then Inl ZeroDivisionError else Inr (Fin 0))"
  by (simp add: process_in_circle_points_def bind_err_Inr bind_err_Inl to_float_0
      int_to_float_4)

subsection \<open>Bounds and rounding error of the reduction\<close>

lemma foldl_fadd_bounded:
  assumes M: "1 \<le> M" "M \<le> 2 ^ 53"
  shows "\<lbrakk>\<forall>x\<in>set xs. 0 \<le> x \<and> x \<le> 1; 0 \<le> a; a \<le> rat_of_int k;
          k + int (length xs) \<le> M\<rbrakk>
     \<Longrightarrow> \<exists>s. foldl fadd (Fin a) (map Fin xs) = Fin s \<and> 0 \<le> s
            \<and> s \<le> rat_of_int (k + int (length xs))
            \<and> \<bar>s - (a + sum_list xs)\<bar> \<le> rat_of_nat (length xs) * rat_of_int M / 2 ^ 53"
proof (induction xs arbitrary: a k)
  case Nil
  then show ?case by simp
next
  case (Cons x xs)
  define a' where "a' = rnd (a + x)"
  from Cons.prems have x: "0 \<le> x" "x \<le> 1" by simp_all
  have k1: "k + 1 \<le> M" using Cons.prems(4) by simp
  have lo: "0 \<le> a + x" using Cons.prems(2) x by simp
  have hi: "a + x \<le> rat_of_int (k + 1)" using Cons.prems(3) x by simp
  have k53: "k + 1 \<le> 2 ^ 53" using k1 M(2) by simp
  from to_float_bounded [OF lo hi k53]
  have step: "to_float (a + x) = Fin a'" and a'0: "0 \<le> a'" and a'k: "a' \<le> rat_of_int (k + 1)"
    by (simp_all add: a'_def)
  have "rat_of_int (k + 1) \<le> rat_of_int M" using k1 by (simp only: of_int_le_iff)
  with lo hi have "\<bar>a + x\<bar> \<le> rat_of_int M" by simp
  moreover have "1 \<le> rat_of_int M" using M(1) by simp
  ultimately have err: "\<bar>a' - (a + x)\<bar> \<le> rat_of_int M / 2 ^ 53"
    unfolding a'_def by (rule rnd_error_bound)
  have "\<forall>x\<in>set xs. 0 \<le> x \<and> x \<le> 1" using Cons.prems(1) by simp
  moreover have "(k + 1) + int (length xs) \<le> M" using Cons.prems(4) by simp
  ultimately obtain s where s: "foldl fadd (Fin a') (map Fin xs) = Fin s" "0 \<le> s"
      "s \<le> rat_of_int ((k + 1) + int (length xs))"
      "\<bar>s - (a' + sum_list xs)\<bar> \<le> rat_of_nat (length xs) * rat_of_int M / 2 ^ 53"
    using Cons.IH [OF _ a'0 a'k] by blast
  have "\<bar>s - (a + sum_list (x # xs))\<bar> \<le> \<bar>s - (a' + sum_list xs)\<bar> + \<bar>a' - (a + x)\<bar>"
    by simp
  also have "\<dots> \<le> rat_of_nat (length xs) * rat_of_int M / 2 ^ 53 + rat_of_int M / 2 ^ 53"
    using s(4) err by simp
  also have "\<dots> = rat_of_nat (length (x # xs)) * rat_of_int M / 2 ^ 53"
    by (simp add: field_simps)
  finally have "\<bar>s - (a + sum_list (x # xs))\<bar>
      \<le> rat_of_nat (length (x # xs)) * rat_of_int M / 2 ^ 53" .
  moreover have "foldl fadd (Fin a) (map Fin (x # xs)) = Fin s" using s(1) step by simp
  moreover have "s \<le> rat_of_int (k + int (length (x # xs)))"
    using s(3) by (simp add: add.assoc add.commute)
  ultimately show ?case using s(2) by blast
qed

lemma process_bounded:
  assumes N: "0 < MAP_INSTANCES gl" "MAP_INSTANCES gl \<le> 2 ^ 53"
    and xs: "\<forall>x\<in>set xs. 0 \<le> x \<and> x \<le> 1"
    and len: "int (length xs) \<le> MAP_INSTANCES gl"
  shows "\<exists>r. process_in_circle_points gl self (map Fin xs) = Inr (Fin r) \<and> 0 \<le> r \<and> r \<le> 4
          \<and> \<bar>r - 4 * sum_list xs / rat_of_int (MAP_INSTANCES gl)\<bar>
              \<le> (4 * rat_of_nat (length xs) + 8) / 2 ^ 53"
proof (cases "xs = []")
  case True
  then show ?thesis using N(1) by (simp add: process_empty)
next
  case False
  define M where "M = MAP_INSTANCES gl"
  define n where "n = rat_of_nat (length xs)"
  define S where "S = sum_list xs"
  have M1: "1 \<le> M" "M \<le> 2 ^ 53" "0 < M" using N by (simp_all add: M_def)
  have Mr: "0 < rat_of_int M" "1 \<le> rat_of_int M" using M1 by simp_all
  have "(0::rat) \<le> 0" "(0::rat) \<le> rat_of_int 0" "0 + int (length xs) \<le> M"
    using len by (simp_all add: M_def)
  from foldl_fadd_bounded [OF M1(1,2) xs this]
  obtain s where s: "foldl fadd (Fin 0) (map Fin xs) = Fin s" "0 \<le> s"
      "s \<le> rat_of_int (int (length xs))"
      "\<bar>s - S\<bar> \<le> n * rat_of_int M / 2 ^ 53"
    by (auto simp add: S_def n_def)
  have "rat_of_int (int (length xs)) \<le> rat_of_int M"
    using len by (simp only: of_int_le_iff M_def)
  with s(3) have sM: "s \<le> rat_of_int M" by simp
  text \<open>the division\<close>
  have "0 \<le> s / rat_of_int M" "s / rat_of_int M \<le> rat_of_int 1"
    using s(2) sM Mr by simp_all
  from to_float_bounded [OF this]
  have dv: "to_float (s / rat_of_int M) = Fin (rnd (s / rat_of_int M))"
    and q0: "0 \<le> rnd (s / rat_of_int M)" and q1: "rnd (s / rat_of_int M) \<le> 1"
    by simp_all
  define q where "q = rnd (s / rat_of_int M)"
  have "\<bar>s / rat_of_int M\<bar> \<le> 1" using s(2) sM Mr by simp
  then have qerr: "\<bar>q - s / rat_of_int M\<bar> \<le> 1 / 2 ^ 53"
    unfolding q_def by (rule rnd_error_bound) simp
  text \<open>the multiplication\<close>
  have "0 \<le> 4 * q" "4 * q \<le> rat_of_int 4" using q0 q1 by (simp_all add: q_def)
  from to_float_bounded [OF this]
  have ml: "to_float (4 * q) = Fin (rnd (4 * q))"
    and r0: "0 \<le> rnd (4 * q)" and r4: "rnd (4 * q) \<le> 4"
    by simp_all
  define r where "r = rnd (4 * q)"
  have "\<bar>4 * q\<bar> \<le> 4" using q0 q1 by (simp add: q_def)
  then have rerr: "\<bar>r - 4 * q\<bar> \<le> 4 / 2 ^ 53"
    unfolding r_def by (rule rnd_error_bound) simp
  text \<open>the result\<close>
  have Mne: "rat_of_int M \<noteq> 0" using Mr by simp
  have "process_in_circle_points gl self (map Fin xs) = Inr (Fin r)"
    using False s(1) Mne M1
    by (simp add: process_in_circle_points_def sum_loop_start float_sum_def bind_err_Inr
        int_to_float_small int_to_float_4 M_def [symmetric] dv q_def [symmetric] ml
        r_def [symmetric])
  moreover have "\<bar>r - 4 * S / rat_of_int M\<bar> \<le> (4 * n + 8) / 2 ^ 53"
  proof -
    have "\<bar>s / rat_of_int M - S / rat_of_int M\<bar> = \<bar>s - S\<bar> / rat_of_int M"
      using Mr by (simp add: diff_divide_distrib [symmetric])
    also have "\<dots> \<le> (n * rat_of_int M / 2 ^ 53) / rat_of_int M"
    proof (rule divide_right_mono)
      show "\<bar>s - S\<bar> \<le> n * rat_of_int M / 2 ^ 53" by (rule s(4))
      show "0 \<le> rat_of_int M" using Mr(1) by (rule less_imp_le)
    qed
    also have "\<dots> = n / 2 ^ 53" using Mne by simp
    finally have serr: "\<bar>s / rat_of_int M - S / rat_of_int M\<bar> \<le> n / 2 ^ 53" .
    define u where "u = s / rat_of_int M"
    define v where "v = S / rat_of_int M"
    define d1 where "d1 = q - u"
    define d2 where "d2 = u - v"
    have split: "r - 4 * v = (r - 4 * q) + (4 * d1 + 4 * d2)"
      by (simp add: d1_def d2_def algebra_simps)
    have "\<bar>r - 4 * v\<bar> \<le> \<bar>r - 4 * q\<bar> + \<bar>4 * d1 + 4 * d2\<bar>"
      unfolding split by (rule abs_triangle_ineq)
    also have "\<bar>4 * d1 + 4 * d2\<bar> \<le> \<bar>4 * d1\<bar> + \<bar>4 * d2\<bar>"
      by (rule abs_triangle_ineq)
    finally have "\<bar>r - 4 * v\<bar> \<le> \<bar>r - 4 * q\<bar> + 4 * \<bar>d1\<bar> + 4 * \<bar>d2\<bar>"
      by (simp add: abs_mult)
    then have "\<bar>r - 4 * v\<bar> \<le> \<bar>r - 4 * q\<bar> + 4 * \<bar>q - u\<bar> + 4 * \<bar>u - v\<bar>"
      by (simp only: d1_def d2_def)
    also have "\<dots> \<le> 4 / 2 ^ 53 + 4 * (1 / 2 ^ 53) + 4 * (n / 2 ^ 53)"
      using rerr qerr serr unfolding u_def v_def
      by (intro add_mono mult_left_mono) simp_all
    also have "\<dots> = (4 * n + 8) / 2 ^ 53" by (simp add: field_simps)
    finally show ?thesis by (simp add: v_def)
  qed
  ultimately show ?thesis using r0 r4 by (auto simp add: r_def S_def n_def M_def)
qed

subsection \<open>Evaluation on concrete inputs\<close>

lemma rnd_third: "rnd (1 / 3) = 6004799503160661 / 18014398509481984"
  by (simp add: float_eval)

lemma rnd_two_thirds: "rnd (2 / 3) = 6004799503160661 / 9007199254740992"
  by (simp add: float_eval)

lemma rnd_tenth: "rnd (1 / 10) = 3602879701896397 / 36028797018963968"
  by (simp add: float_eval)

lemma rnd_three_tenths: "rnd (3 / 10) = 5404319552844595 / 18014398509481984"
  by (simp add: float_eval)

lemma constant_three_tenths:
  "process_in_circle_points module_globals self (replicate 100 (Fin (rnd (3 / 10))))
   = Inr (Fin (1351079888211151 / 1125899906842624))"
  by (simp add: rnd_three_tenths process_in_circle_points_def module_globals_def
      float_eval cong: bind_err_weak_cong)

lemma order_forward:
  "process_in_circle_points module_globals self
     ([Fin (rnd (1 / 3)), Fin (rnd (2 / 3)), Fin 1] @ replicate 97 (Fin 0))
   = Inr (Fin (5764607523034235 / 72057594037927936))"
  by (simp add: rnd_third rnd_two_thirds process_in_circle_points_def module_globals_def
      float_eval cong: bind_err_weak_cong)

lemma order_backward:
  "process_in_circle_points module_globals self
     ([Fin 1, Fin (rnd (2 / 3)), Fin (rnd (1 / 3))] @ replicate 97 (Fin 0))
   = Inr (Fin (2882303761517117 / 36028797018963968))"
  by (simp add: rnd_third rnd_two_thirds process_in_circle_points_def module_globals_def
      float_eval cong: bind_err_weak_cong)

lemma constant_tenth:
  "process_in_circle_points module_globals self (replicate 100 (Fin (rnd (1 / 10))))
   = Inr (Fin (1801439850948195 / 4503599627370496))"
  by (simp add: rnd_tenth process_in_circle_points_def module_globals_def
      float_eval cong: bind_err_weak_cong)

text \<open>
  C2, as the code has it. For every sequence of partial fractions in \<open>[0, 1]\<close> whose
  length equals \<open>N = MAP_INSTANCES\<close>, the reducer returns a finite float within
  \<open>(4 N + 8) / 2\<^sup>5\<^sup>3\<close> of the arithmetic mean of the sequence multiplied by 4. What it
  computes is the float sum from left to right, divided by \<open>N\<close>, times 4, each step
  rounded; it need not be the float nearest the exact value.
\<close>

theorem process_in_circle_points_mean:
  assumes "0 < MAP_INSTANCES gl" and "MAP_INSTANCES gl \<le> 2 ^ 53"
    and "\<forall>x\<in>set xs. 0 \<le> x \<and> x \<le> 1"
    and "int (length xs) = MAP_INSTANCES gl"
  shows "\<exists>r. process_in_circle_points gl self (map Fin xs) = Inr (Fin r)
           \<and> \<bar>r - 4 * arithmetic_mean xs\<bar> \<le> (4 * rat_of_int (MAP_INSTANCES gl) + 8) / 2 ^ 53"
proof -
  have len: "int (length xs) \<le> MAP_INSTANCES gl" using assms(4) by simp
  have n: "rat_of_nat (length xs) = rat_of_int (MAP_INSTANCES gl)"
    using assms(4) by (metis of_int_of_nat_eq)
  from process_bounded [OF assms(1-3) len, of self]
  obtain r where r: "process_in_circle_points gl self (map Fin xs) = Inr (Fin r)"
      "\<bar>r - 4 * sum_list xs / rat_of_int (MAP_INSTANCES gl)\<bar>
         \<le> (4 * rat_of_nat (length xs) + 8) / 2 ^ 53"
    by blast
  have "4 * sum_list xs / rat_of_int (MAP_INSTANCES gl) = 4 * arithmetic_mean xs"
    by (simp add: arithmetic_mean_def n)
  with r show ?thesis by (auto simp add: n)
qed

theorem process_in_circle_points_mean_witness:
  "0 < MAP_INSTANCES module_globals \<and> MAP_INSTANCES module_globals \<le> 2 ^ 53 \<and>
   int (length (replicate 100 (1 / 2 :: rat))) = MAP_INSTANCES module_globals \<and>
   (\<exists>r. process_in_circle_points module_globals (EstimatePI_init module_globals)
            (map Fin (replicate 100 (1 / 2))) = Inr (Fin r)
        \<and> \<bar>r - 4 * arithmetic_mean (replicate 100 (1 / 2))\<bar>
            \<le> (4 * rat_of_int (MAP_INSTANCES module_globals) + 8) / 2 ^ 53)"
proof -
  have h1: "0 < MAP_INSTANCES module_globals" by (simp add: module_globals_def)
  have h2: "MAP_INSTANCES module_globals \<le> 2 ^ 53" by (simp add: module_globals_def)
  have h3: "\<forall>x\<in>set (replicate 100 (1 / 2 :: rat)). 0 \<le> x \<and> x \<le> 1" by simp
  have h4: "int (length (replicate 100 (1 / 2 :: rat))) = MAP_INSTANCES module_globals"
    by (simp add: module_globals_def)
  show ?thesis
    by (intro conjI h1 h2 h4 process_in_circle_points_mean [OF h1 h2 h3 h4])
qed

text \<open>
  C2, as stated, fails: the sequence of a hundred times \<open>0.3\<close> has the length
  \<open>MAP_INSTANCES\<close> and the arithmetic mean \<open>0.3\<close>, and \<open>4 * 0.3 = 1.2\<close> is a float, but the
  reducer returns \<open>1.200000000000002\<close>.
\<close>

theorem process_in_circle_points_mean_counterexample:
  "int (length (replicate 100 (rnd (3 / 10)))) = MAP_INSTANCES module_globals
   \<and> arithmetic_mean (replicate 100 (rnd (3 / 10))) = rnd (3 / 10)
   \<and> to_float (4 * arithmetic_mean (replicate 100 (rnd (3 / 10))))
       = Fin (4 * arithmetic_mean (replicate 100 (rnd (3 / 10))))
   \<and> process_in_circle_points module_globals (EstimatePI_init module_globals)
         (map Fin (replicate 100 (rnd (3 / 10))))
       \<noteq> Inr (Fin (4 * arithmetic_mean (replicate 100 (rnd (3 / 10)))))"
proof -
  have m: "arithmetic_mean (replicate 100 (rnd (3 / 10))) = rnd (3 / 10)"
    by (simp add: arithmetic_mean_def sum_list_replicate)
  have "process_in_circle_points module_globals (EstimatePI_init module_globals)
          (replicate 100 (Fin (rnd (3 / 10))))
        = Inr (Fin (1351079888211151 / 1125899906842624))"
    by (rule constant_three_tenths)
  moreover have "(1351079888211151 / 1125899906842624 :: rat) \<noteq> 4 * rnd (3 / 10)"
    by (simp add: rnd_three_tenths)
  ultimately have ne: "process_in_circle_points module_globals (EstimatePI_init module_globals)
          (map Fin (replicate 100 (rnd (3 / 10)))) \<noteq> Inr (Fin (4 * rnd (3 / 10)))"
    by (simp only: map_replicate sum.inject pyfloat.inject) simp
  have fl: "to_float (4 * rnd (3 / 10)) = Fin (4 * rnd (3 / 10))"
    by (simp add: rnd_three_tenths float_eval)
  have len: "int (length (replicate 100 (rnd (3 / 10)))) = MAP_INSTANCES module_globals"
    by (simp add: module_globals_def)
  show ?thesis
    using len ne fl by (simp only: m) simp
qed

text \<open>
  C3, as the code has it. Applied to an empty sequence the reducer divides the int 0 by
  \<open>MAP_INSTANCES\<close>, not by the length of the sequence: it returns \<open>0.0\<close>, and a division
  by zero occurs only when \<open>MAP_INSTANCES\<close> itself is 0.
\<close>

theorem process_in_circle_points_empty:
  "process_in_circle_points gl self [] =
     (if MAP_INSTANCES gl = 0 then Inl ZeroDivisionError else Inr (Fin 0))"
  by (rule process_empty)

text \<open>
  C3, as stated, fails for the notebook: with \<open>MAP_INSTANCES = 100\<close> the reducer applied
  to the empty sequence returns \<open>0.0\<close> and raises nothing.
\<close>

theorem process_in_circle_points_empty_counterexample:
  "process_in_circle_points module_globals (EstimatePI_init module_globals) [] = Inr (Fin 0)
   \<and> process_in_circle_points module_globals (EstimatePI_init module_globals) []
       \<noteq> Inl ZeroDivisionError"
  by (simp add: process_empty module_globals_def)



text \<open>
  C5, as the code has it. The reducer is order-independent up to float rounding: for a
  sequence of at most \<open>MAP_INSTANCES\<close> partial fractions in \<open>[0, 1]\<close> and any permutation of
  it, both results are finite floats and they differ by at most \<open>(8 n + 16) / 2\<^sup>5\<^sup>3\<close>,
  where \<open>n\<close> is the length of the sequence. They need not be equal.
\<close>

theorem process_in_circle_points_permutation:
  assumes "0 < MAP_INSTANCES gl" and "MAP_INSTANCES gl \<le> 2 ^ 53"
    and "\<forall>x\<in>set xs. 0 \<le> x \<and> x \<le> 1"
    and "int (length xs) \<le> MAP_INSTANCES gl"
    and "mset ys = mset xs"
  shows "\<exists>a b. process_in_circle_points gl self (map Fin xs) = Inr (Fin a)
             \<and> process_in_circle_points gl self (map Fin ys) = Inr (Fin b)
             \<and> \<bar>a - b\<bar> \<le> (8 * rat_of_nat (length xs) + 16) / 2 ^ 53"
proof -
  have set_eq: "set ys = set xs" using assms(5) by (rule mset_eq_setD)
  have len_eq: "length ys = length xs" using assms(5) by (rule mset_eq_length)
  have sum_eq: "sum_list ys = sum_list xs"
    using assms(5) by (metis sum_mset_sum_list)
  define m where "m = 4 * sum_list xs / rat_of_int (MAP_INSTANCES gl)"
  define d where "d = (4 * rat_of_nat (length xs) + 8) / (2 ^ 53 :: rat)"
  from process_bounded [OF assms(1-4), of self]
  obtain a where a: "process_in_circle_points gl self (map Fin xs) = Inr (Fin a)"
      "\<bar>a - m\<bar> \<le> d"
    by (auto simp add: m_def d_def)
  have "\<forall>x\<in>set ys. 0 \<le> x \<and> x \<le> 1" using assms(3) by (simp add: set_eq)
  moreover have "int (length ys) \<le> MAP_INSTANCES gl" using assms(4) by (simp add: len_eq)
  ultimately obtain b where b: "process_in_circle_points gl self (map Fin ys) = Inr (Fin b)"
      "\<bar>b - m\<bar> \<le> d"
    using process_bounded [OF assms(1,2), of ys self]
    by (auto simp add: m_def d_def len_eq sum_eq)
  have "\<bar>a - b\<bar> \<le> \<bar>a - m\<bar> + \<bar>b - m\<bar>" by simp
  also have "\<dots> \<le> d + d" using a(2) b(2) by (rule add_mono)
  also have "\<dots> = (8 * rat_of_nat (length xs) + 16) / 2 ^ 53"
    by (simp add: d_def field_simps)
  finally show ?thesis using a(1) b(1) by blast
qed

theorem process_in_circle_points_permutation_witness:
  "0 < MAP_INSTANCES module_globals \<and> MAP_INSTANCES module_globals \<le> 2 ^ 53 \<and>
   int (length [1 / 3, 2 / 3, 1 :: rat]) \<le> MAP_INSTANCES module_globals \<and>
   mset [1, 2 / 3, 1 / 3 :: rat] = mset [1 / 3, 2 / 3, 1] \<and>
   (\<exists>a b. process_in_circle_points module_globals (EstimatePI_init module_globals)
              (map Fin [1 / 3, 2 / 3, 1]) = Inr (Fin a)
        \<and> process_in_circle_points module_globals (EstimatePI_init module_globals)
              (map Fin [1, 2 / 3, 1 / 3]) = Inr (Fin b)
        \<and> \<bar>a - b\<bar> \<le> (8 * rat_of_nat (length [1 / 3, 2 / 3, 1 :: rat]) + 16) / 2 ^ 53)"
proof -
  have h1: "0 < MAP_INSTANCES module_globals" by (simp add: module_globals_def)
  have h2: "MAP_INSTANCES module_globals \<le> 2 ^ 53" by (simp add: module_globals_def)
  have h3: "\<forall>x\<in>set [1 / 3, 2 / 3, 1 :: rat]. 0 \<le> x \<and> x \<le> 1" by simp
  have h4: "int (length [1 / 3, 2 / 3, 1 :: rat]) \<le> MAP_INSTANCES module_globals"
    by (simp add: module_globals_def)
  have h5: "mset [1, 2 / 3, 1 / 3 :: rat] = mset [1 / 3, 2 / 3, 1]"
    by (simp add: add_mset_commute)
  show ?thesis
    by (intro conjI h1 h2 h4 h5 process_in_circle_points_permutation [OF h1 h2 h3 h4 h5])
qed

text \<open>
  C5, as stated, fails: the hundred partial fractions \<open>1/3, 2/3, 1.0, 0.0, \<dots>, 0.0\<close> and
  the same sequence with its first three elements reversed are permutations of each
  other, and the reducer returns \<open>0.08\<close> on one and \<open>0.07999999999999999\<close> on the other.
\<close>

theorem process_in_circle_points_permutation_counterexample:
  "mset ([Fin 1, Fin (rnd (2 / 3)), Fin (rnd (1 / 3))] @ replicate 97 (Fin 0))
     = mset ([Fin (rnd (1 / 3)), Fin (rnd (2 / 3)), Fin 1] @ replicate 97 (Fin 0))
   \<and> process_in_circle_points module_globals (EstimatePI_init module_globals)
        ([Fin 1, Fin (rnd (2 / 3)), Fin (rnd (1 / 3))] @ replicate 97 (Fin 0))
     \<noteq> process_in_circle_points module_globals (EstimatePI_init module_globals)
        ([Fin (rnd (1 / 3)), Fin (rnd (2 / 3)), Fin 1] @ replicate 97 (Fin 0))"
proof -
  have "mset [Fin 1, Fin (rnd (2 / 3)), Fin (rnd (1 / 3))]
      = mset [Fin (rnd (1 / 3)), Fin (rnd (2 / 3)), Fin 1]"
    by (simp add: add_mset_commute)
  then show ?thesis
    by (simp only: order_forward order_backward mset_append) simp
qed

text \<open>
  C6, as the code has it. For every \<open>v\<close> in \<open>[0, 1]\<close> repeated \<open>N = MAP_INSTANCES\<close> times
  the reducer returns a finite float within \<open>(4 N + 8) / 2\<^sup>5\<^sup>3\<close> of \<open>4 v\<close>. It need not
  be \<open>4 v\<close> itself.
\<close>

theorem process_in_circle_points_constant:
  assumes "0 < MAP_INSTANCES gl" and "MAP_INSTANCES gl \<le> 2 ^ 53"
    and "0 \<le> v" and "v \<le> 1"
  shows "\<exists>r. process_in_circle_points gl self (replicate (nat (MAP_INSTANCES gl)) (Fin v))
               = Inr (Fin r)
           \<and> \<bar>r - 4 * v\<bar> \<le> (4 * rat_of_int (MAP_INSTANCES gl) + 8) / 2 ^ 53"
proof -
  define n where "n = nat (MAP_INSTANCES gl)"
  have n: "rat_of_nat n = rat_of_int (MAP_INSTANCES gl)" "int n = MAP_INSTANCES gl"
    using assms(1) by (simp_all add: n_def)
  have ne: "rat_of_int (MAP_INSTANCES gl) \<noteq> 0" using assms(1) by simp
  have "\<forall>x\<in>set (replicate n v). 0 \<le> x \<and> x \<le> 1" using assms(3,4) by simp
  moreover have "int (length (replicate n v)) \<le> MAP_INSTANCES gl" by (simp add: n)
  ultimately obtain r where r:
      "process_in_circle_points gl self (map Fin (replicate n v)) = Inr (Fin r)"
      "\<bar>r - 4 * sum_list (replicate n v) / rat_of_int (MAP_INSTANCES gl)\<bar>
         \<le> (4 * rat_of_nat (length (replicate n v)) + 8) / 2 ^ 53"
    using process_bounded [OF assms(1,2), of "replicate n v" self] by blast
  have "4 * sum_list (replicate n v) / rat_of_int (MAP_INSTANCES gl) = 4 * v"
    using ne by (simp add: sum_list_replicate n)
  with r(2) have "\<bar>r - 4 * v\<bar> \<le> (4 * rat_of_int (MAP_INSTANCES gl) + 8) / 2 ^ 53"
    by (simp add: n)
  moreover have "process_in_circle_points gl self (replicate n (Fin v)) = Inr (Fin r)"
    using r(1) by simp
  ultimately show ?thesis unfolding n_def by blast
qed

theorem process_in_circle_points_constant_witness:
  "0 < MAP_INSTANCES module_globals \<and> MAP_INSTANCES module_globals \<le> 2 ^ 53 \<and>
   0 \<le> (1 / 10 :: rat) \<and> (1 / 10 :: rat) \<le> 1 \<and>
   (\<exists>r. process_in_circle_points module_globals (EstimatePI_init module_globals)
            (replicate (nat (MAP_INSTANCES module_globals)) (Fin (1 / 10))) = Inr (Fin r)
        \<and> \<bar>r - 4 * (1 / 10)\<bar> \<le> (4 * rat_of_int (MAP_INSTANCES module_globals) + 8) / 2 ^ 53)"
proof -
  have h1: "0 < MAP_INSTANCES module_globals" by (simp add: module_globals_def)
  have h2: "MAP_INSTANCES module_globals \<le> 2 ^ 53" by (simp add: module_globals_def)
  have h3: "0 \<le> (1 / 10 :: rat)" by simp
  have h4: "(1 / 10 :: rat) \<le> 1" by simp
  show ?thesis
    by (intro conjI h1 h2 h3 h4 process_in_circle_points_constant [OF h1 h2 h3 h4])
qed

text \<open>
  C6, as stated, fails: on \<open>0.1\<close> repeated a hundred times the reducer returns
  \<open>0.39999999999999925\<close>, which is not \<open>4 * 0.1 = 0.4\<close>.
\<close>

theorem process_in_circle_points_constant_counterexample:
  "process_in_circle_points module_globals (EstimatePI_init module_globals)
       (replicate (nat (MAP_INSTANCES module_globals)) (Fin (rnd (1 / 10))))
     \<noteq> Inr (Fin (4 * rnd (1 / 10)))
   \<and> fmul (Fin 4) (Fin (rnd (1 / 10))) = Fin (4 * rnd (1 / 10))"
proof -
  have n: "nat (MAP_INSTANCES module_globals) = 100" by (simp add: module_globals_def)
  have "process_in_circle_points module_globals (EstimatePI_init module_globals)
          (replicate 100 (Fin (rnd (1 / 10))))
        = Inr (Fin (1801439850948195 / 4503599627370496))"
    by (rule constant_tenth)
  moreover have "(1801439850948195 / 4503599627370496 :: rat) \<noteq> 4 * rnd (1 / 10)"
    by (simp add: rnd_tenth)
  ultimately have "process_in_circle_points module_globals (EstimatePI_init module_globals)
          (replicate 100 (Fin (rnd (1 / 10)))) \<noteq> Inr (Fin (4 * rnd (1 / 10)))"
    by (simp only: sum.inject pyfloat.inject) simp
  moreover have "fmul (Fin 4) (Fin (rnd (1 / 10))) = Fin (4 * rnd (1 / 10))"
    by (simp add: rnd_tenth float_eval)
  ultimately show ?thesis by (simp only: n) simp
qed

text \<open>
  C10. For every sequence of at most \<open>MAP_INSTANCES\<close> floats in \<open>[0, 1]\<close> the reducer
  returns a finite float in \<open>[0, 4]\<close>, and no error, also when fewer than
  \<open>MAP_INSTANCES\<close> partial results are supplied.
\<close>

theorem process_in_circle_points_range:
  assumes "0 < MAP_INSTANCES gl" and "MAP_INSTANCES gl \<le> 2 ^ 53"
    and "\<forall>x\<in>set xs. 0 \<le> x \<and> x \<le> 1"
    and "int (length xs) \<le> MAP_INSTANCES gl"
  shows "\<exists>r. process_in_circle_points gl self (map Fin xs) = Inr (Fin r) \<and> 0 \<le> r \<and> r \<le> 4"
  using process_bounded [OF assms, of self] by blast

theorem process_in_circle_points_range_witness:
  "0 < MAP_INSTANCES module_globals \<and> MAP_INSTANCES module_globals \<le> 2 ^ 53 \<and>
   int (length [1 / 2, 1 / 4 :: rat]) \<le> MAP_INSTANCES module_globals \<and>
   (\<exists>r. process_in_circle_points module_globals (EstimatePI_init module_globals)
            (map Fin [1 / 2, 1 / 4]) = Inr (Fin r) \<and> 0 \<le> r \<and> r \<le> 4)"
proof -
  have h1: "0 < MAP_INSTANCES module_globals" by (simp add: module_globals_def)
  have h2: "MAP_INSTANCES module_globals \<le> 2 ^ 53" by (simp add: module_globals_def)
  have h3: "\<forall>x\<in>set [1 / 2, 1 / 4 :: rat]. 0 \<le> x \<and> x \<le> 1" by simp
  have h4: "int (length [1 / 2, 1 / 4 :: rat]) \<le> MAP_INSTANCES module_globals"
    by (simp add: module_globals_def)
  show ?thesis
    by (intro conjI h1 h2 h4 process_in_circle_points_range [OF h1 h2 h3 h4])
qed

end
